theory Spec2Isabelle
  imports Complex_Main "HOL-Library.Sublist"
begin

section \<open>Keyword detection and scoring (KWS.py)\<close>

text \<open>
  The theory embeds the pure part of \<^verbatim>\<open>KWS.py\<close>: \<^verbatim>\<open>detect_keywords\<close>,
  \<^verbatim>\<open>compute_accuracy\<close>, \<^verbatim>\<open>compute_individual_keyword_metrics\<close> and the list
  comprehension of \<^verbatim>\<open>main\<close> that maps character offsets to seconds.

  Conventions of the embedding:
  \<^item> a Python \<^verbatim>\<open>str\<close> is a list of characters of any type \<open>'c\<close> (code points);
    \<^verbatim>\<open>str.lower\<close> is a parameter \<open>lower\<close> of the functions that call it, and
    \<open>str_lower\<close> is its instance on ASCII text, used where a scenario is run;
  \<^item> a Python \<^verbatim>\<open>int\<close> is an \<open>int\<close>;
  \<^item> a Python \<^verbatim>\<open>float\<close> is a \<open>rat\<close>: true division \<^verbatim>\<open>/\<close> is exact division, and it
    raises \<^verbatim>\<open>ZeroDivisionError\<close> on a zero divisor (rounding is not modelled);
  \<^item> a \<^verbatim>\<open>dict\<close> is an association list in insertion order, its keys distinct;
  \<^item> a raised exception is the left summand of the result;
  \<^item> \<^verbatim>\<open>print\<close> is not modelled.
\<close>

subsection \<open>Python built-ins\<close>

datatype py_error = KeyError | ZeroDivisionError

type_synonym ('k, 'v) dict = "('k \<times> 'v) list"

text \<open>\<^verbatim>\<open>d[k] = v\<close>: an existing key keeps its place, a new key goes last.\<close>

fun dict_setitem :: "('k, 'v) dict \<Rightarrow> 'k \<Rightarrow> 'v \<Rightarrow> ('k, 'v) dict" where
  "dict_setitem [] k v = [(k, v)]"
| "dict_setitem ((k', v') # d) k v =
     (if k' = k then (k', v) # d else (k', v') # dict_setitem d k v)"

text \<open>\<^verbatim>\<open>d[k]\<close> raises \<^verbatim>\<open>KeyError\<close> on a missing key.\<close>

definition dict_getitem :: "('k, 'v) dict \<Rightarrow> 'k \<Rightarrow> py_error + 'v" where
  "dict_getitem d k = (case map_of d k of None \<Rightarrow> Inl KeyError | Some v \<Rightarrow> Inr v)"

text \<open>\<^verbatim>\<open>d.get(k, default)\<close>.\<close>

definition dict_get :: "('k, 'v) dict \<Rightarrow> 'k \<Rightarrow> 'v \<Rightarrow> 'v" where
  "dict_get d k dflt = (case map_of d k of None \<Rightarrow> dflt | Some v \<Rightarrow> v)"

text \<open>Iterating over a dict yields its keys in insertion order.\<close>

definition dict_keys :: "('k, 'v) dict \<Rightarrow> 'k list" where
  "dict_keys d = map fst d"

text \<open>
  \<^verbatim>\<open>s.find(sub)\<close>: the lowest index at which \<^verbatim>\<open>sub\<close> occurs in \<^verbatim>\<open>s\<close>, or \<open>-1\<close>.
  The empty string occurs at index 0 of every string.
\<close>

fun str_find :: "'c list \<Rightarrow> 'c list \<Rightarrow> int" where
  "str_find [] sub = (if sub = [] then 0 else - 1)"
| "str_find (c # cs) sub =
     (if prefix sub (c # cs) then 0
      else (let r = str_find cs sub in if r = - 1 then - 1 else r + 1))"

text \<open>
  \<^verbatim>\<open>s[i:j]\<close> with Python's treatment of negative and out-of-range indices.
\<close>

definition slice_index :: "int \<Rightarrow> int \<Rightarrow> int" where
  "slice_index n i = (if i < 0 then max 0 (n + i) else min i n)"

definition slice :: "'c list \<Rightarrow> int \<Rightarrow> int \<Rightarrow> 'c list" where
  "slice s i j =
     (let n = int (length s); a = slice_index n i; b = slice_index n j
      in take (nat (b - a)) (drop (nat a) s))"

text \<open>\<^verbatim>\<open>str.lower\<close> on ASCII text: the letters A to Z move to a to z.\<close>

definition lower_char :: "char \<Rightarrow> char" where
  "lower_char c =
     (let n = (of_char c :: nat) in if 65 \<le> n \<and> n \<le> 90 then char_of (n + 32) else c)"

definition str_lower :: "string \<Rightarrow> string" where
  "str_lower s = map lower_char s"

text \<open>Truth value of \<^verbatim>\<open>transcription\<close>, which is \<^verbatim>\<open>None\<close> or a string.\<close>

definition truthy :: "'c list option \<Rightarrow> bool" where
  "truthy transcription = (case transcription of None \<Rightarrow> False | Some s \<Rightarrow> s \<noteq> [])"

text \<open>True division of two numbers.\<close>

definition py_truediv :: "rat \<Rightarrow> rat \<Rightarrow> py_error + rat" where
  "py_truediv a b = (if b = 0 then Inl ZeroDivisionError else Inr (a / b))"

subsection \<open>\<^verbatim>\<open>detect_keywords\<close>\<close>

type_synonym 'c interval = "'c list \<times> int \<times> int"

type_synonym 'c positions = "('c list, (int \<times> int) list) dict"

type_synonym 'c detected = "'c interval list \<times> 'c list list \<times> 'c positions"

text \<open>
  The body of the \<^verbatim>\<open>for\<close> loop, lines 50 to 59. The state is the three results under
  construction. Line 57 indexes \<^verbatim>\<open>keyword_positions\<close> with the lower-cased keyword.
\<close>

fun detect_loop ::
  "('c list \<Rightarrow> 'c list) \<Rightarrow> 'c list \<Rightarrow> 'c list list \<Rightarrow> 'c detected \<Rightarrow> py_error + 'c detected"
where
  "detect_loop lower transcription [] st = Inr st"
| "detect_loop lower transcription (keyword0 # keywords)
     (keyword_intervals, detected_keywords, keyword_positions) =
     (let keyword = lower keyword0;
          start = str_find transcription keyword
      in if start \<noteq> - 1 then
           (let end' = start + int (length keyword)
            in case dict_getitem keyword_positions keyword of
                 Inl err \<Rightarrow> Inl err
               | Inr occurrences \<Rightarrow>
                   detect_loop lower transcription keywords
                     (keyword_intervals @ [(keyword, start, end')],
                      detected_keywords @ [keyword],
                      dict_setitem keyword_positions keyword (occurrences @ [(start, end')])))
         else detect_loop lower transcription keywords
                (keyword_intervals, detected_keywords, keyword_positions))"

definition detect_keywords ::
  "('c list \<Rightarrow> 'c list) \<Rightarrow> 'c list option \<Rightarrow> 'c list list \<Rightarrow> py_error + 'c detected"
where
  "detect_keywords lower transcription keywords =
     (let keyword_intervals = [];
          detected_keywords = [];
          keyword_positions = foldl (\<lambda>d keyword. dict_setitem d keyword []) [] keywords
      in if truthy transcription then
           detect_loop lower (lower (the transcription)) keywords
             (keyword_intervals, detected_keywords, keyword_positions)
         else Inr (keyword_intervals, detected_keywords, keyword_positions))"

subsection \<open>\<^verbatim>\<open>compute_accuracy\<close>\<close>

text \<open>Sequencing of two computations, the first of which may raise.\<close>

definition bind_err :: "py_error + 'a \<Rightarrow> ('a \<Rightarrow> py_error + 'b) \<Rightarrow> py_error + 'b" where
  "bind_err m f = (case m of Inl err \<Rightarrow> Inl err | Inr x \<Rightarrow> f x)"

definition compute_accuracy :: "'k list \<Rightarrow> 'k list \<Rightarrow> py_error + rat \<times> rat \<times> rat" where
  "compute_accuracy detected_keywords keywords =
     (let true_positives = int (card (set detected_keywords \<inter> set keywords));
          false_positives = int (length detected_keywords) - true_positives;
          false_negatives = int (length keywords) - true_positives
      in bind_err
           (if true_positives + false_positives > 0
            then py_truediv (of_int true_positives) (of_int (true_positives + false_positives))
            else Inr 0)
           (\<lambda>precision.
         bind_err
           (if true_positives + false_negatives > 0
            then py_truediv (of_int true_positives) (of_int (true_positives + false_negatives))
            else Inr 0)
           (\<lambda>recall.
         bind_err
           (if precision + recall > 0
            then py_truediv (2 * (precision * recall)) (precision + recall)
            else Inr 0)
           (\<lambda>f1_score. Inr (precision, recall, f1_score)))))"

subsection \<open>\<^verbatim>\<open>compute_individual_keyword_metrics\<close>\<close>

record keyword_metric =
  precision :: rat
  recall :: rat
  f1_score :: rat
  true_positives :: int
  false_positives :: int
  false_negatives :: int

text \<open>
  The \<^verbatim>\<open>for\<close> loop of lines 81 to 97; the state is the dictionary \<^verbatim>\<open>keyword_metrics\<close>.
\<close>

fun metrics_loop ::
  "('k, 'o list) dict \<Rightarrow> 'k list \<Rightarrow> ('k, keyword_metric) dict \<Rightarrow>
   py_error + ('k, keyword_metric) dict"
where
  "metrics_loop keyword_positions [] keyword_metrics = Inr keyword_metrics"
| "metrics_loop keyword_positions (keyword # keywords) keyword_metrics =
     (let true_positives = int (length (dict_get keyword_positions keyword []));
          false_positives =
            sum_list (map (\<lambda>k. int (length (dict_get keyword_positions k [])))
                          (filter (\<lambda>k. k \<noteq> keyword) (dict_keys keyword_positions)));
          false_negatives = (if true_positives = 0 then 1 else 0)
      in bind_err
           (if true_positives + false_positives > 0
            then py_truediv (of_int true_positives) (of_int (true_positives + false_positives))
            else Inr 0)
           (\<lambda>precision.
         bind_err
           (if true_positives + false_negatives > 0
            then py_truediv (of_int true_positives) (of_int (true_positives + false_negatives))
            else Inr 0)
           (\<lambda>recall.
         bind_err
           (if precision + recall > 0
            then py_truediv (2 * (precision * recall)) (precision + recall)
            else Inr 0)
           (\<lambda>f1_score.
              metrics_loop keyword_positions keywords
                (dict_setitem keyword_metrics keyword
                   \<lparr>precision = precision, recall = recall, f1_score = f1_score,
                    true_positives = true_positives, false_positives = false_positives,
                    false_negatives = false_negatives\<rparr>)))))"

definition compute_individual_keyword_metrics ::
  "('k, 'o list) dict \<Rightarrow> 'k list \<Rightarrow> py_error + ('k, keyword_metric) dict"
where
  "compute_individual_keyword_metrics keyword_positions keywords =
     metrics_loop keyword_positions keywords []"

subsection \<open>The time mapping of \<^verbatim>\<open>main\<close>\<close>

text \<open>
  Line 166: the list comprehension that turns every character interval into seconds.
  \<^verbatim>\<open>transcription\<close> is the transcript as \<^verbatim>\<open>main\<close> holds it, \<^verbatim>\<open>audio_duration\<close> the
  number of samples over the sample rate.
\<close>

fun keyword_intervals_in_time ::
  "'c list \<Rightarrow> rat \<Rightarrow> 'c interval list \<Rightarrow> py_error + ('c list \<times> rat \<times> rat) list"
where
  "keyword_intervals_in_time transcription audio_duration [] = Inr []"
| "keyword_intervals_in_time transcription audio_duration ((keyword, start, end') # rest) =
     bind_err (py_truediv (of_int start) (of_nat (length transcription))) (\<lambda>a.
     bind_err (py_truediv (of_int end') (of_nat (length transcription))) (\<lambda>b.
     bind_err (keyword_intervals_in_time transcription audio_duration rest) (\<lambda>timed.
       Inr ((keyword, a * audio_duration, b * audio_duration) # timed))))"

subsection \<open>Notions used in the statements\<close>

text \<open>
  The invariant of the specification's data model for one occurrence, against the
  lower-cased transcript \<open>t\<close>: \<open>0 \<le> start < end \<le> length t\<close> and \<open>t[start:end]\<close> is the keyword.
\<close>

definition occurrence_in_bounds :: "'c list \<Rightarrow> 'c interval \<Rightarrow> bool" where
  "occurrence_in_bounds t occ =
     (case occ of (keyword, start, end') \<Rightarrow>
        0 \<le> start \<and> start < end' \<and> end' \<le> int (length t) \<and> slice t start end' = keyword)"

text \<open>The keywords of a list that occur in \<open>t\<close>, and the offsets line 52 to 54 compute.\<close>

definition found_keywords :: "'c list \<Rightarrow> 'c list list \<Rightarrow> 'c list list" where
  "found_keywords t ks = filter (\<lambda>k. str_find t k \<noteq> - 1) ks"

definition first_occurrence :: "'c list \<Rightarrow> 'c list \<Rightarrow> int \<times> int" where
  "first_occurrence t k = (str_find t k, str_find t k + int (length k))"

text \<open>The record one iteration of lines 82 to 97 stores for its keyword.\<close>

definition keyword_metric_of :: "('k, 'o list) dict \<Rightarrow> 'k \<Rightarrow> keyword_metric" where
  "keyword_metric_of keyword_positions keyword =
     (let tp = int (length (dict_get keyword_positions keyword []));
          fp = sum_list (map (\<lambda>k. int (length (dict_get keyword_positions k [])))
                             (filter (\<lambda>k. k \<noteq> keyword) (dict_keys keyword_positions)));
          fn = (if tp = 0 then 1 else 0);
          p = (if tp + fp > 0 then of_int tp / of_int (tp + fp) else 0);
          r = (if tp + fn > 0 then of_int tp / of_int (tp + fn) else 0);
          f = (if p + r > 0 then 2 * (p * r) / (p + r) else 0)
      in \<lparr>precision = p, recall = r, f1_score = f,
          true_positives = tp, false_positives = fp, false_negatives = fn\<rparr>)"

section \<open>Properties of the built-ins\<close>

subsection \<open>Dictionaries\<close>

lemma map_of_dict_setitem: "map_of (dict_setitem d k v) = (map_of d)(k \<mapsto> v)"
  by (induction d) (auto simp: fun_eq_iff)

lemma keys_dict_setitem:
  "dict_keys (dict_setitem d k v) =
     (if k \<in> set (dict_keys d) then dict_keys d else dict_keys d @ [k])"
  by (induction d) (force simp: dict_keys_def)+

lemma dict_getitem_Inr: "dict_getitem d k = Inr v \<longleftrightarrow> map_of d k = Some v"
  by (simp add: dict_getitem_def split: option.splits)

lemma dict_getitem_key: "dict_getitem d k = Inr v \<Longrightarrow> k \<in> set (dict_keys d)"
  by (auto simp: dict_getitem_Inr dict_keys_def dest: map_of_SomeD intro: rev_image_eqI)

lemma dict_get_distinct:
  "distinct (dict_keys d) \<Longrightarrow> (k, v) \<in> set d \<Longrightarrow> dict_get d k dflt = v"
  by (simp add: dict_get_def dict_keys_def)

text \<open>Storing a value under every key of a list, as the comprehension of line 47 does.\<close>

lemma fold_setitem_keys:
  "set (dict_keys (foldl (\<lambda>d k. dict_setitem d k (g k)) d0 ks)) = set (dict_keys d0) \<union> set ks"
  by (induction ks arbitrary: d0) (auto simp: keys_dict_setitem)

lemma fold_setitem_distinct:
  "distinct (dict_keys d0) \<Longrightarrow>
   distinct (dict_keys (foldl (\<lambda>d k. dict_setitem d k (g k)) d0 ks))"
  by (induction ks arbitrary: d0) (auto simp: keys_dict_setitem)

lemma fold_setitem_map_of:
  "map_of (foldl (\<lambda>d k. dict_setitem d k (g k)) d0 ks) k =
     (if k \<in> set ks then Some (g k) else map_of d0 k)"
  by (induction ks arbitrary: d0) (auto simp: map_of_dict_setitem)

subsection \<open>Substring search and slices\<close>

lemma str_find_nonneg: "str_find s sub \<noteq> - 1 \<Longrightarrow> 0 \<le> str_find s sub"
  by (induction s) (auto simp: Let_def split: if_splits)

lemma str_find_Cons_miss:
  "\<not> prefix sub (c # cs) \<Longrightarrow> str_find (c # cs) sub \<noteq> - 1 \<Longrightarrow>
   str_find cs sub \<noteq> - 1 \<and> str_find (c # cs) sub = str_find cs sub + 1"
  by (auto simp: Let_def split: if_splits)

lemma str_find_found:
  "str_find s sub \<noteq> - 1 \<Longrightarrow> prefix sub (drop (nat (str_find s sub)) s)"
proof (induction s)
  case Nil
  then show ?case by (simp split: if_splits)
next
  case (Cons c cs)
  show ?case
  proof (cases "prefix sub (c # cs)")
    case True
    then show ?thesis by simp
  next
    case False
    from str_find_Cons_miss[OF False Cons.prems]
    have ne: "str_find cs sub \<noteq> - 1" and eq: "str_find (c # cs) sub = str_find cs sub + 1"
      by simp_all
    from ne have "0 \<le> str_find cs sub" by (rule str_find_nonneg)
    then have "nat (str_find cs sub + 1) = Suc (nat (str_find cs sub))" by simp
    with eq Cons.IH[OF ne] show ?thesis by simp
  qed
qed

lemma str_find_least: "j < nat (str_find s sub) \<Longrightarrow> \<not> prefix sub (drop j s)"
proof (induction s arbitrary: j)
  case Nil
  then show ?case by (simp split: if_splits)
next
  case (Cons c cs)
  show ?case
  proof (cases "prefix sub (c # cs)")
    case True
    with Cons.prems show ?thesis by simp
  next
    case False
    show ?thesis
    proof (cases j)
      case 0
      with False show ?thesis by simp
    next
      case (Suc j')
      from Cons.prems have "str_find (c # cs) sub \<noteq> - 1" by auto
      from str_find_Cons_miss[OF False this]
      have ne: "str_find cs sub \<noteq> - 1" and eq: "str_find (c # cs) sub = str_find cs sub + 1"
        by simp_all
      from ne have "0 \<le> str_find cs sub" by (rule str_find_nonneg)
      then have "nat (str_find cs sub + 1) = Suc (nat (str_find cs sub))" by simp
      with eq Cons.prems Suc have "j' < nat (str_find cs sub)" by simp
      from Cons.IH[OF this] Suc show ?thesis by simp
    qed
  qed
qed

lemma str_find_end:
  "str_find s sub \<noteq> - 1 \<Longrightarrow> str_find s sub + int (length sub) \<le> int (length s)"
proof (induction s)
  case Nil
  then show ?case by (simp split: if_splits)
next
  case (Cons c cs)
  show ?case
  proof (cases "prefix sub (c # cs)")
    case True
    then have "length sub \<le> length (c # cs)" by (rule prefix_length_le)
    with True show ?thesis by simp
  next
    case False
    from str_find_Cons_miss[OF False Cons.prems] Cons.IH show ?thesis by simp
  qed
qed

lemma slice_window: "0 \<le> j \<Longrightarrow> slice s j (j + int m) = take m (drop (nat j) s)"
  by (auto simp: slice_def slice_index_def Let_def min_def nat_add_distrib nat_diff_distrib)

lemma slice_map: "slice (map f s) i j = map f (slice s i j)"
  by (simp add: slice_def Let_def take_map drop_map)

lemma prefix_take: "prefix k xs \<longleftrightarrow> take (length k) xs = k"
  by (metis append_eq_conv_conj prefix_def append_take_drop_id)

lemma str_find_slice:
  assumes "str_find s sub \<noteq> - 1"
  shows "slice s (str_find s sub) (str_find s sub + int (length sub)) = sub"
proof -
  from assms have "0 \<le> str_find s sub" by (rule str_find_nonneg)
  moreover from str_find_found[OF assms]
  have "take (length sub) (drop (nat (str_find s sub)) s) = sub" by (simp add: prefix_take)
  ultimately show ?thesis by (simp add: slice_window)
qed

lemma str_find_earliest:
  assumes "0 \<le> j" and "j < str_find s sub"
  shows "slice s j (j + int (length sub)) \<noteq> sub"
proof -
  from assms have "nat j < nat (str_find s sub)" by simp
  then have "\<not> prefix sub (drop (nat j) s)" by (rule str_find_least)
  with assms(1) show ?thesis by (simp add: slice_window prefix_take)
qed

section \<open>The detection loop in closed form\<close>

lemma found_keywords_iff:
  "k \<in> set (found_keywords t ks) \<longleftrightarrow> k \<in> set ks \<and> str_find t k \<noteq> - 1"
  by (auto simp: found_keywords_def)

lemma distinct_found_keywords: "distinct ks \<Longrightarrow> distinct (found_keywords t ks)"
  by (simp add: found_keywords_def)

lemma count_list_distinct: "distinct xs \<Longrightarrow> count_list xs x \<le> 1"
  by (induction xs) (auto simp: count_list_0_iff)

text \<open>
  When the loop returns, the two lists have grown by the found lower-cased keywords, in
  order; the dictionary has its keys unchanged, and the list under a key has grown by
  one copy of the first occurrence for every found keyword that lower-cases to that key.
\<close>

lemma detect_loop_result:
  "detect_loop lower t ks (iv, det, pos) = Inr (iv', det', pos') \<Longrightarrow>
     iv' = iv @ map (\<lambda>k. (k, first_occurrence t k)) (found_keywords t (map lower ks)) \<and>
     det' = det @ found_keywords t (map lower ks) \<and>
     dict_keys pos' = dict_keys pos \<and>
     (\<forall>k. map_of pos' k =
        map_option
          (\<lambda>l. l @ replicate (count_list (found_keywords t (map lower ks)) k)
                    (first_occurrence t k))
          (map_of pos k))"
proof (induction ks arbitrary: iv det pos)
  case Nil
  then show ?case by (simp add: found_keywords_def option.map_ident)
next
  case (Cons k0 ks)
  let ?k = "lower k0"
  show ?case
  proof (cases "str_find t ?k = - 1")
    case True
    with Cons.prems have "detect_loop lower t ks (iv, det, pos) = Inr (iv', det', pos')"
      by (simp add: Let_def)
    from Cons.IH[OF this] True show ?thesis by (simp add: found_keywords_def)
  next
    case False
    with Cons.prems obtain occs where g: "dict_getitem pos ?k = Inr occs"
      and r: "detect_loop lower t ks
                (iv @ [(?k, first_occurrence t ?k)], det @ [?k],
                 dict_setitem pos ?k (occs @ [first_occurrence t ?k])) = Inr (iv', det', pos')"
      by (auto simp: Let_def first_occurrence_def split: sum.splits)
    from g have key: "?k \<in> set (dict_keys pos)" by (rule dict_getitem_key)
    from g have m: "map_of pos ?k = Some occs" by (simp add: dict_getitem_Inr)
    note ih = Cons.IH[OF r]
    have f: "found_keywords t (map lower (k0 # ks)) = ?k # found_keywords t (map lower ks)"
      using False by (simp add: found_keywords_def)
    have "iv' = iv @ map (\<lambda>k. (k, first_occurrence t k)) (found_keywords t (map lower (k0 # ks)))"
      using ih f by simp
    moreover have "det' = det @ found_keywords t (map lower (k0 # ks))"
      using ih f by simp
    moreover have "dict_keys pos' = dict_keys pos"
      using ih key by (simp add: keys_dict_setitem)
    moreover have "map_of pos' k =
        map_option
          (\<lambda>l. l @ replicate (count_list (found_keywords t (map lower (k0 # ks))) k)
                    (first_occurrence t k))
          (map_of pos k)" for k
    proof (cases "k = ?k")
      case True
      with ih m f show ?thesis
        by (simp add: map_of_dict_setitem replicate_app_Cons_same)
    next
      case False
      with ih f show ?thesis
        by (simp add: map_of_dict_setitem)
    qed
    ultimately show ?thesis by blast
  qed
qed

lemma truthy_Some: "truthy tr \<longleftrightarrow> (\<exists>t. tr = Some t \<and> t \<noteq> [])"
  by (cases tr) (simp_all add: truthy_def)

lemma detect_keywords_absent:
  "\<not> truthy tr \<Longrightarrow>
   detect_keywords lower tr ks = Inr ([], [], foldl (\<lambda>d k. dict_setitem d k []) [] ks)"
  by (simp add: detect_keywords_def)

lemma detect_keywords_present:
  "t \<noteq> [] \<Longrightarrow>
   detect_keywords lower (Some t) ks =
     detect_loop lower (lower t) ks ([], [], foldl (\<lambda>d k. dict_setitem d k []) [] ks)"
  by (simp add: detect_keywords_def truthy_def)

lemma detect_keywords_keys:
  assumes "detect_keywords lower tr ks = Inr (iv, det, pos)"
  shows "set (dict_keys pos) = set ks" and "distinct (dict_keys pos)"
proof -
  let ?init = "foldl (\<lambda>d k. dict_setitem d k []) [] ks :: ('a list, (int \<times> int) list) dict"
  have "dict_keys pos = dict_keys ?init"
  proof (cases "truthy tr")
    case True
    then obtain t where "tr = Some t" "t \<noteq> []" by (auto simp: truthy_Some)
    with assms have "detect_loop lower (lower t) ks ([], [], ?init) = Inr (iv, det, pos)"
      by (simp add: detect_keywords_present)
    from detect_loop_result[OF this] show ?thesis by simp
  next
    case False
    with assms show ?thesis by (simp add: detect_keywords_absent)
  qed
  then show "set (dict_keys pos) = set ks" and "distinct (dict_keys pos)"
    using fold_setitem_keys[of "\<lambda>k. []" "[]" ks] fold_setitem_distinct[of "[]" "\<lambda>k. []" ks]
    by (simp_all add: dict_keys_def)
qed

lemma detect_keywords_lists:
  assumes "detect_keywords lower tr ks = Inr (iv, det, pos)"
  shows "iv = [] \<and> det = [] \<or>
         (\<exists>t. tr = Some t \<and> t \<noteq> [] \<and>
            iv = map (\<lambda>k. (k, first_occurrence (lower t) k))
                     (found_keywords (lower t) (map lower ks)) \<and>
            det = found_keywords (lower t) (map lower ks))"
proof (cases "truthy tr")
  case True
  then obtain t where t: "tr = Some t" "t \<noteq> []" by (auto simp: truthy_Some)
  with assms have "detect_loop lower (lower t) ks
      ([], [], foldl (\<lambda>d k. dict_setitem d k []) [] ks) = Inr (iv, det, pos)"
    by (simp add: detect_keywords_present)
  from detect_loop_result[OF this] t show ?thesis by simp
next
  case False
  with assms show ?thesis by (simp add: detect_keywords_absent)
qed

lemma detect_keywords_positions:
  assumes "detect_keywords lower tr ks = Inr (iv, det, pos)" and "(k, l) \<in> set pos"
  shows "l = [] \<or>
         (\<exists>t. tr = Some t \<and> t \<noteq> [] \<and>
            l = replicate (count_list (found_keywords (lower t) (map lower ks)) k)
                  (first_occurrence (lower t) k))"
proof -
  from assms have m: "map_of pos k = Some l"
    using detect_keywords_keys(2)[OF assms(1)] by (simp add: dict_keys_def)
  show ?thesis
  proof (cases "truthy tr")
    case True
    then obtain t where t: "tr = Some t" "t \<noteq> []" by (auto simp: truthy_Some)
    with assms have "detect_loop lower (lower t) ks
        ([], [], foldl (\<lambda>d k. dict_setitem d k []) [] ks) = Inr (iv, det, pos)"
      by (simp add: detect_keywords_present)
    from detect_loop_result[OF this] m t show ?thesis
      by (auto simp: fold_setitem_map_of split: if_splits)
  next
    case False
    with assms(1) have "pos = foldl (\<lambda>d k. dict_setitem d k []) [] ks"
      by (simp add: detect_keywords_absent)
    with m show ?thesis by (simp add: fold_setitem_map_of split: if_splits)
  qed
qed

text \<open>
  A found keyword whose lower-cased form is not itself in the keyword list makes the
  call raise \<^verbatim>\<open>KeyError\<close>.
\<close>

lemma detect_loop_unlisted_raises:
  "k \<in> set ks \<Longrightarrow> str_find t (lower k) \<noteq> - 1 \<Longrightarrow> lower k \<notin> set (dict_keys pos) \<Longrightarrow>
   detect_loop lower t ks (iv, det, pos) = Inl KeyError"
proof (induction ks arbitrary: iv det pos)
  case Nil
  then show ?case by simp
next
  case (Cons h ks)
  show ?case
  proof (cases "str_find t (lower h) = - 1")
    case True
    with Cons.prems have "k \<in> set ks" by auto
    from Cons.IH[OF this Cons.prems(2,3)] True show ?thesis by (simp add: Let_def)
  next
    case False
    show ?thesis
    proof (cases "map_of pos (lower h)")
      case None
      with False show ?thesis by (simp add: Let_def dict_getitem_def)
    next
      case (Some occs)
      then have "lower h \<in> set (dict_keys pos)"
        by (auto simp: dict_keys_def dest: map_of_SomeD intro: rev_image_eqI)
      with Cons.prems have "k \<in> set ks" and
        "lower k \<notin> set (dict_keys (dict_setitem pos (lower h)
            (occs @ [(str_find t (lower h), str_find t (lower h) + int (length (lower h)))])))"
        by (auto simp: keys_dict_setitem)
      from Cons.IH[OF this(1) Cons.prems(2) this(2)] False Some show ?thesis
        by (simp add: Let_def dict_getitem_def)
    qed
  qed
qed

lemma detect_keywords_unlisted_spelling_raises:
  assumes "t \<noteq> []" and "k \<in> set ks" and "str_find (lower t) (lower k) \<noteq> - 1"
    and "lower k \<notin> set ks"
  shows "detect_keywords lower (Some t) ks = Inl KeyError"
proof -
  let ?init = "foldl (\<lambda>d k. dict_setitem d k []) [] ks :: ('a list, (int \<times> int) list) dict"
  have "set (dict_keys ?init) = set ks"
    using fold_setitem_keys[of "\<lambda>k. [] :: (int \<times> int) list" "[] :: ('a list, (int \<times> int) list) dict" ks]
    by (simp add: dict_keys_def)
  with assms(4) have "lower k \<notin> set (dict_keys ?init)"
    by simp
  with assms(2,3) have "detect_loop lower (lower t) ks ([], [], ?init) = Inl KeyError"
    by (rule detect_loop_unlisted_raises)
  with assms(1) show ?thesis
    by (simp add: detect_keywords_present)
qed

section \<open>The scoring functions in closed form\<close>

lemma metrics_loop_step:
  "metrics_loop kp (keyword # ks) km =
     metrics_loop kp ks (dict_setitem km keyword (keyword_metric_of kp keyword))"
  by (simp add: keyword_metric_of_def Let_def bind_err_def py_truediv_def)

lemma metrics_loop_eq:
  "metrics_loop kp ks km =
     Inr (foldl (\<lambda>d k. dict_setitem d k (keyword_metric_of kp k)) km ks)"
proof (induction ks arbitrary: km)
  case Nil
  show ?case by simp
next
  case (Cons k ks)
  show ?case by (simp only: metrics_loop_step Cons.IH foldl_Cons)
qed

lemma metrics_lookup:
  "k \<in> set ks \<Longrightarrow>
   \<exists>km. compute_individual_keyword_metrics kp ks = Inr km \<and>
        dict_getitem km k = Inr (keyword_metric_of kp k)"
  by (simp add: compute_individual_keyword_metrics_def metrics_loop_eq dict_getitem_def
      fold_setitem_map_of)

lemma others_sum_aux:
  "(\<forall>(k', occs) \<in> set xs. dict_get d k' [] = occs) \<Longrightarrow>
   sum_list (map (\<lambda>k'. int (length (dict_get d k' []))) (filter (\<lambda>k'. k' \<noteq> k) (map fst xs))) =
   sum_list (map (\<lambda>(k', occs). int (length occs)) (filter (\<lambda>(k', occs). k' \<noteq> k) xs))"
  by (induction xs) auto

lemma others_sum:
  assumes "distinct (dict_keys d)"
  shows "sum_list (map (\<lambda>k'. int (length (dict_get d k' [])))
                       (filter (\<lambda>k'. k' \<noteq> k) (dict_keys d))) =
         sum_list (map (\<lambda>(k', occs). int (length occs)) (filter (\<lambda>(k', occs). k' \<noteq> k) d))"
proof -
  have "\<forall>(k', occs) \<in> set d. dict_get d k' [] = occs"
    using assms by (auto simp: dict_get_distinct)
  from others_sum_aux[OF this] show ?thesis by (simp add: dict_keys_def)
qed

lemma true_positives_le_detected: "card (set d \<inter> set k) \<le> length d"
  by (meson card_length card_mono inf_le1 le_trans List.finite_set)

lemma true_positives_le_keywords: "card (set d \<inter> set k) \<le> length k"
  by (meson card_length card_mono inf_le2 le_trans List.finite_set)

lemma ratio_unit:
  fixes a b :: int
  assumes "0 \<le> a" "a \<le> b"
  shows "0 \<le> (if b > 0 then (of_int a :: rat) / of_int b else 0)"
    and "(if b > 0 then (of_int a :: rat) / of_int b else 0) \<le> 1"
  using assms by (auto simp: divide_le_eq)

lemma f1_unit:
  fixes p r :: rat
  assumes "0 \<le> p" "p \<le> 1" "0 \<le> r" "r \<le> 1"
  shows "0 \<le> (if p + r > 0 then 2 * (p * r) / (p + r) else 0)"
    and "(if p + r > 0 then 2 * (p * r) / (p + r) else 0) \<le> 1"
proof -
  show "0 \<le> (if p + r > 0 then 2 * (p * r) / (p + r) else 0)"
    using assms by simp
  have "p * r \<le> p * 1" using assms by (intro mult_left_mono) auto
  moreover have "p * r \<le> 1 * r" using assms by (intro mult_right_mono) auto
  ultimately have "2 * (p * r) \<le> p + r" by simp
  then show "(if p + r > 0 then 2 * (p * r) / (p + r) else 0) \<le> 1"
    by (simp add: divide_le_eq)
qed

lemma compute_accuracy_eq:
  "compute_accuracy detected ks =
     (let TP = int (card (set detected \<inter> set ks));
          P = (if int (length detected) > 0 then of_int TP / of_int (int (length detected)) else 0);
          R = (if int (length ks) > 0 then of_int TP / of_int (int (length ks)) else 0);
          F = (if P + R > 0 then 2 * (P * R) / (P + R) else 0)
      in Inr (P, R, F))"
  by (simp add: compute_accuracy_def Let_def bind_err_def py_truediv_def)

section \<open>Keyword detection\<close>

text \<open>
  C1. For the transcript "a quick fox" and the keyword list ["Quick"] the call does not
  return the match at offsets (2, 7): the keyword is found in the lower-cased transcript,
  and line 57 then looks up the lower-cased keyword "quick" in a dictionary whose only
  key is "Quick", which raises KeyError.
\<close>

theorem detect_keywords_mixed_case_raises:
  "detect_keywords str_lower (Some ''a quick fox'') [''Quick''] = Inl KeyError"
  by code_simp

text \<open>
  C2 (as amended). On every call that returns, every returned occurrence
  (keyword, start, end) lies within the lower-cased transcript,
  \<open>0 \<le> start \<le> end \<le> length (lower t)\<close>, with \<open>start < end\<close> exactly when the keyword
  component is not the empty string; the keyword component is the lower-cased form of
  an input keyword and equals the slice \<open>lower(t)[start:end]\<close>. Where lower-casing works
  character by character, it also equals \<open>lower(t[start:end])\<close>.
\<close>

theorem occurrence_offsets_within_transcript:
  assumes "detect_keywords lower transcription keywords = Inr (iv, det, pos)"
    and "(keyword, start, end') \<in> set iv"
  shows "\<exists>t. transcription = Some t \<and>
           0 \<le> start \<and> start \<le> end' \<and> end' \<le> int (length (lower t)) \<and>
           (start < end' \<longleftrightarrow> keyword \<noteq> []) \<and>
           keyword \<in> lower ` set keywords \<and>
           slice (lower t) start end' = keyword \<and>
           ((\<forall>s. lower s = map f s) \<longrightarrow> lower (slice t start end') = keyword)"
proof -
  from assms(2) have "iv \<noteq> []" by auto
  with detect_keywords_lists[OF assms(1)] obtain t where t: "transcription = Some t"
    and iv: "iv = map (\<lambda>k. (k, first_occurrence (lower t) k))
                      (found_keywords (lower t) (map lower keywords))"
    by auto
  from assms(2) iv have k: "keyword \<in> set (found_keywords (lower t) (map lower keywords))"
    and o: "(start, end') = first_occurrence (lower t) keyword"
    by auto
  from k have kw: "keyword \<in> lower ` set keywords" and ne: "str_find (lower t) keyword \<noteq> - 1"
    by (auto simp: found_keywords_iff)
  from o have s: "start = str_find (lower t) keyword" and e: "end' = start + int (length keyword)"
    by (simp_all add: first_occurrence_def)
  have "0 \<le> start" using ne s by (simp add: str_find_nonneg)
  moreover have "start \<le> end'" using e by simp
  moreover have "end' \<le> int (length (lower t))" using ne s e by (simp add: str_find_end)
  moreover have "start < end' \<longleftrightarrow> keyword \<noteq> []" using e by simp
  moreover have sl: "slice (lower t) start end' = keyword"
    using ne s e by (simp add: str_find_slice)
  moreover have "lower (slice t start end') = keyword" if "\<forall>s. lower s = map f s"
    using sl that by (simp add: slice_map)
  ultimately show ?thesis using t kw by blast
qed

text \<open>
  The transcript "A Quick Fox" with the keywords "quick" and "cat": the one occurrence
  is ("quick", 2, 7).
\<close>

theorem occurrence_offsets_within_transcript_witness:
  "detect_keywords str_lower (Some ''A Quick Fox'') [''quick'', ''cat''] =
     Inr ([(''quick'', 2, 7)], [''quick''], [(''quick'', [(2, 7)]), (''cat'', [])]) \<and>
   (\<forall>s. str_lower s = map lower_char s) \<and>
   (0::int) \<le> 2 \<and> (2::int) < 7 \<and> 7 \<le> int (length (str_lower ''A Quick Fox'')) \<and>
   ''quick'' \<in> str_lower ` set [''quick'', ''cat''] \<and>
   slice (str_lower ''A Quick Fox'') 2 7 = ''quick'' \<and>
   str_lower (slice ''A Quick Fox'' 2 7) = ''quick''"
proof -
  have run: "detect_keywords str_lower (Some ''A Quick Fox'') [''quick'', ''cat''] =
     Inr ([(''quick'', 2, 7)], [''quick''], [(''quick'', [(2, 7)]), (''cat'', [])])"
    by code_simp
  have mem: "(''quick'', 2, 7) \<in> set [(''quick'', 2::int, 7::int)]" by simp
  have charwise: "\<forall>s. str_lower s = map lower_char s" by (simp add: str_lower_def)
  from occurrence_offsets_within_transcript[OF run mem, of lower_char] charwise
  have "0 \<le> (2::int) \<and> (2::int) \<le> 7 \<and> 7 \<le> int (length (str_lower ''A Quick Fox'')) \<and>
        ((2::int) < 7 \<longleftrightarrow> ''quick'' \<noteq> []) \<and>
        ''quick'' \<in> str_lower ` set [''quick'', ''cat''] \<and>
        slice (str_lower ''A Quick Fox'') 2 7 = ''quick'' \<and>
        str_lower (slice ''A Quick Fox'' 2 7) = ''quick''"
    by blast
  moreover have "(2::int) < 7" by simp
  ultimately show ?thesis using run charwise by blast
qed

text \<open>
  The claim as written fails for the empty keyword, which \<^verbatim>\<open>find\<close> locates at offset 0 of
  any non-empty transcript: the occurrence is ("", 0, 0), where start = end.
\<close>

theorem empty_keyword_occurrence_counterexample:
  "detect_keywords str_lower (Some ''a'') [''''] =
     Inr ([('''', 0, 0)], [''''], [('''', [(0, 0)])]) \<and>
   \<not> occurrence_in_bounds (str_lower ''a'') ('''', 0, 0)"
  by (simp add: occurrence_in_bounds_def) code_simp

text \<open>
  C3 (as amended). If the transcript is absent (None or the empty string), then for every
  keyword list the call returns without error an empty occurrence list, an empty
  detected-keyword list, and a keyword-positions mapping that holds every input keyword
  as a key, each with an empty list of occurrences (so it is the empty mapping only
  for the empty keyword list); the aggregate metrics computed from that detected list are
  (0, 0, 0).
\<close>

theorem absent_transcript_results:
  assumes "transcription = None \<or> transcription = Some []"
  shows "\<exists>pos. detect_keywords lower transcription keywords = Inr ([], [], pos) \<and>
           set (dict_keys pos) = set keywords \<and> distinct (dict_keys pos) \<and>
           (\<forall>k \<in> set keywords. dict_getitem pos k = Inr []) \<and>
           (pos = [] \<longleftrightarrow> keywords = []) \<and>
           compute_accuracy ([] :: 'c list list) keywords = Inr (0, 0, 0)"
proof -
  let ?pos = "foldl (\<lambda>d k. dict_setitem d k []) [] keywords :: ('c list, (int \<times> int) list) dict"
  from assms have "\<not> truthy transcription" by (auto simp: truthy_def)
  then have d: "detect_keywords lower transcription keywords = Inr ([], [], ?pos)"
    by (rule detect_keywords_absent)
  have k: "set (dict_keys ?pos) = set keywords" "distinct (dict_keys ?pos)"
    using detect_keywords_keys[OF d] by blast+
  have g: "\<forall>k \<in> set keywords. dict_getitem ?pos k = Inr []"
    by (simp add: dict_getitem_def fold_setitem_map_of)
  have e: "?pos = [] \<longleftrightarrow> keywords = []"
    using k(1) by (auto simp: dict_keys_def)
  have a: "compute_accuracy ([] :: 'c list list) keywords = Inr (0, 0, 0)"
    by (simp add: compute_accuracy_def Let_def bind_err_def py_truediv_def)
  from d k g e a show ?thesis by blast
qed

text \<open>Scenario 2: the empty transcript with the keyword "anything".\<close>

theorem absent_transcript_results_witness:
  "(\<exists>pos. detect_keywords str_lower (Some '''') [''anything''] = Inr ([], [], pos) \<and>
      dict_keys pos = [''anything''] \<and> dict_getitem pos ''anything'' = Inr [] \<and> pos \<noteq> []) \<and>
   compute_accuracy ([] :: string list) [''anything''] = Inr (0, 0, 0)"
proof -
  have absent: "Some '''' = None \<or> Some '''' = Some ([] :: string)" by simp
  from absent_transcript_results[OF absent, of str_lower "[''anything'']"]
  obtain pos where run: "detect_keywords str_lower (Some '''') [''anything''] = Inr ([], [], pos)"
    and keys: "set (dict_keys pos) = set [''anything'']" "distinct (dict_keys pos)"
    and get: "\<forall>k \<in> set [''anything'']. dict_getitem pos k = Inr []"
    and ne: "pos = [] \<longleftrightarrow> [''anything''] = ([] :: string list)"
    and acc: "compute_accuracy ([] :: string list) [''anything''] = Inr (0, 0, 0)"
    by blast
  from keys have "dict_keys pos = [''anything'']"
    by (cases "dict_keys pos") (auto simp: subset_singleton_iff)
  with run get ne acc show ?thesis by auto
qed

text \<open>
  The claim as written fails on the third output: with a keyword in the list, the
  mapping returned for an absent transcript has that keyword as a key and is not empty.
\<close>

theorem absent_transcript_positions_counterexample:
  "detect_keywords str_lower None [''anything''] = Inr ([], [], [(''anything'', [])]) \<and>
   detect_keywords str_lower None [''anything''] \<noteq> Inr ([], [], [])"
  by code_simp

text \<open>
  C4 (as amended). For every transcript and every keyword list no two entries of which
  have the same lower-cased form, on which the call returns, each keyword's list in the
  returned mapping has length 0 or 1; a recorded occurrence is the earliest match of the
  keyword in the lower-cased transcript, whatever the number of its appearances.
\<close>

theorem positions_at_most_one:
  assumes "distinct (map lower keywords)"
    and "detect_keywords lower transcription keywords = Inr (iv, det, pos)"
    and "(keyword, occurrences) \<in> set pos"
  shows "occurrences = [] \<or>
         (\<exists>t start. transcription = Some t \<and> start = str_find (lower t) keyword \<and>
            start \<noteq> - 1 \<and>
            occurrences = [(start, start + int (length keyword))] \<and>
            slice (lower t) start (start + int (length keyword)) = keyword \<and>
            (\<forall>j. 0 \<le> j \<and> j < start \<longrightarrow>
                 slice (lower t) j (j + int (length keyword)) \<noteq> keyword))"
proof -
  from detect_keywords_positions[OF assms(2,3)] show ?thesis
  proof
    assume "occurrences = []"
    then show ?thesis ..
  next
    assume "\<exists>t. transcription = Some t \<and> t \<noteq> [] \<and>
      occurrences = replicate (count_list (found_keywords (lower t) (map lower keywords)) keyword)
                      (first_occurrence (lower t) keyword)"
    then obtain t where t: "transcription = Some t"
      and l: "occurrences =
                replicate (count_list (found_keywords (lower t) (map lower keywords)) keyword)
                  (first_occurrence (lower t) keyword)"
      by blast
    let ?n = "count_list (found_keywords (lower t) (map lower keywords)) keyword"
    have "?n \<le> 1" using assms(1) by (intro count_list_distinct distinct_found_keywords)
    then consider "?n = 0" | "?n = 1" by linarith
    then show ?thesis
    proof cases
      case 1
      with l show ?thesis by simp
    next
      case 2
      then have "keyword \<in> set (found_keywords (lower t) (map lower keywords))"
        using count_list_0_iff[of "found_keywords (lower t) (map lower keywords)" keyword]
        by simp
      then have ne: "str_find (lower t) keyword \<noteq> - 1" by (simp add: found_keywords_iff)
      from 2 l have "occurrences =
          [(str_find (lower t) keyword, str_find (lower t) keyword + int (length keyword))]"
        by (simp add: first_occurrence_def)
      with t ne str_find_slice[OF ne] show ?thesis
        by (auto simp: str_find_earliest)
    qed
  qed
qed

text \<open>
  The transcript "a a a" holds the keyword "a" three times; one occurrence, the one at
  offset 0, is recorded.
\<close>

theorem positions_at_most_one_witness:
  "distinct (map str_lower [''a'', ''b'']) \<and>
   detect_keywords str_lower (Some ''a a a'') [''a'', ''b''] =
     Inr ([(''a'', 0, 1)], [''a''], [(''a'', [(0, 1)]), (''b'', [])]) \<and>
   str_find (str_lower ''a a a'') ''a'' = 0 \<and>
   slice (str_lower ''a a a'') 0 1 = ''a''"
proof -
  have d: "distinct (map str_lower [''a'', ''b''])" by code_simp
  have run: "detect_keywords str_lower (Some ''a a a'') [''a'', ''b''] =
     Inr ([(''a'', 0, 1)], [''a''], [(''a'', [(0, 1)]), (''b'', [])])"
    by code_simp
  have mem: "(''a'', [(0, 1)]) \<in> set [(''a'', [(0::int, 1::int)]), (''b'', [])]" by simp
  from positions_at_most_one[OF d run mem]
  obtain start where "start = str_find (str_lower ''a a a'') ''a''"
    and "[(0::int, 1::int)] = [(start, start + int (length ''a''))]"
    and "slice (str_lower ''a a a'') start (start + int (length ''a'')) = ''a''"
    by auto
  then have "str_find (str_lower ''a a a'') ''a'' = 0 \<and> slice (str_lower ''a a a'') 0 1 = ''a''"
    by simp
  with d run show ?thesis by blast
qed

text \<open>
  The claim as written fails when the keyword list names a keyword twice: both entries
  append the same first occurrence to the one list.
\<close>

theorem duplicate_keyword_positions_counterexample:
  "detect_keywords str_lower (Some ''a'') [''a'', ''a''] =
     Inr ([(''a'', 0, 1), (''a'', 0, 1)], [''a'', ''a''], [(''a'', [(0, 1), (0, 1)])])"
  by code_simp

text \<open>
  C10. On every call that returns, every entry of the detected-keyword list and the
  keyword component of every occurrence is the lower-cased form of an input keyword;
  the keys of the keyword-positions mapping are the input keywords as the caller
  spelled them.
\<close>

theorem detected_keywords_lower_cased:
  assumes "detect_keywords lower transcription keywords = Inr (iv, det, pos)"
  shows "set det \<subseteq> lower ` set keywords \<and>
         fst ` set iv \<subseteq> lower ` set keywords \<and>
         set (dict_keys pos) = set keywords"
  using detect_keywords_lists[OF assms] detect_keywords_keys(1)[OF assms]
  by (auto simp: found_keywords_iff)

text \<open>
  With both spellings "Quick" and "quick" in the list the call returns: the two lists
  hold "quick" twice, and the mapping has the keys "Quick" and "quick".
\<close>

theorem detected_keywords_lower_cased_witness:
  "detect_keywords str_lower (Some ''a quick fox'') [''Quick'', ''quick''] =
     Inr ([(''quick'', 2, 7), (''quick'', 2, 7)], [''quick'', ''quick''],
          [(''Quick'', []), (''quick'', [(2, 7), (2, 7)])]) \<and>
   set [''quick'', ''quick''] \<subseteq> str_lower ` set [''Quick'', ''quick''] \<and>
   fst ` set [(''quick'', 2::int, 7::int), (''quick'', 2, 7)] \<subseteq> str_lower ` set [''Quick'', ''quick''] \<and>
   set (dict_keys [(''Quick'', []), (''quick'', [(2::int, 7::int), (2, 7)])]) = set [''Quick'', ''quick'']"
proof -
  have run: "detect_keywords str_lower (Some ''a quick fox'') [''Quick'', ''quick''] =
     Inr ([(''quick'', 2, 7), (''quick'', 2, 7)], [''quick'', ''quick''],
          [(''Quick'', []), (''quick'', [(2, 7), (2, 7)])])"
    by code_simp
  from detected_keywords_lower_cased[OF run] run show ?thesis by blast
qed

section \<open>Scoring\<close>

text \<open>
  C5. For every keyword of the input list and every keyword-positions mapping, the
  per-keyword metrics are computed without error, and the entry stored for the keyword has
  true_positives = the number of occurrences recorded for the keyword, false_positives =
  the total number of occurrences recorded under all other keys of the mapping, and
  false_negatives = 1 if the keyword has no occurrence and 0 otherwise.
\<close>

theorem per_keyword_counts:
  assumes "keyword \<in> set keywords" and "distinct (dict_keys keyword_positions)"
  shows "\<exists>keyword_metrics m.
           compute_individual_keyword_metrics keyword_positions keywords = Inr keyword_metrics \<and>
           dict_getitem keyword_metrics keyword = Inr m \<and>
           true_positives m = int (length (dict_get keyword_positions keyword [])) \<and>
           false_positives m =
             sum_list (map (\<lambda>(k, occurrences). int (length occurrences))
                           (filter (\<lambda>(k, occurrences). k \<noteq> keyword) keyword_positions)) \<and>
           false_negatives m = (if dict_get keyword_positions keyword [] = [] then 1 else 0)"
proof -
  let ?m = "keyword_metric_of keyword_positions keyword"
  from metrics_lookup[OF assms(1)] obtain km
    where "compute_individual_keyword_metrics keyword_positions keywords = Inr km"
      and "dict_getitem km keyword = Inr ?m"
    by blast
  moreover have "true_positives ?m = int (length (dict_get keyword_positions keyword []))"
    by (simp add: keyword_metric_of_def Let_def)
  moreover have "false_positives ?m =
      sum_list (map (\<lambda>(k, occurrences). int (length occurrences))
                    (filter (\<lambda>(k, occurrences). k \<noteq> keyword) keyword_positions))"
    using others_sum[OF assms(2)] by (simp add: keyword_metric_of_def Let_def)
  moreover have "false_negatives ?m =
      (if dict_get keyword_positions keyword [] = [] then 1 else 0)"
    by (simp add: keyword_metric_of_def Let_def)
  ultimately show ?thesis by blast
qed

text \<open>
  Scenario 5: the keywords "a" and "b" against the transcript "a". The mapping records
  one occurrence for "a" and none for "b", and false_positives of "b" is 1.
\<close>

theorem per_keyword_counts_witness:
  "detect_keywords str_lower (Some ''a'') [''a'', ''b''] =
     Inr ([(''a'', 0, 1)], [''a''], [(''a'', [(0, 1)]), (''b'', [])]) \<and>
   ''b'' \<in> set [''a'', ''b''] \<and>
   distinct (dict_keys [(''a'', [(0::int, 1::int)]), (''b'', [])]) \<and>
   (\<exists>keyword_metrics m.
      compute_individual_keyword_metrics [(''a'', [(0::int, 1::int)]), (''b'', [])] [''a'', ''b'']
        = Inr keyword_metrics \<and>
      dict_getitem keyword_metrics ''b'' = Inr m \<and>
      true_positives m = 0 \<and> false_positives m = 1 \<and> false_negatives m = 1)"
proof -
  have run: "detect_keywords str_lower (Some ''a'') [''a'', ''b''] =
     Inr ([(''a'', 0, 1)], [''a''], [(''a'', [(0, 1)]), (''b'', [])])"
    by code_simp
  have mem: "''b'' \<in> set [''a'', ''b'']" by simp
  have dist: "distinct (dict_keys [(''a'', [(0::int, 1::int)]), (''b'', [])])"
    by (simp add: dict_keys_def)
  from per_keyword_counts[OF mem dist]
  have "\<exists>keyword_metrics m.
      compute_individual_keyword_metrics [(''a'', [(0::int, 1::int)]), (''b'', [])] [''a'', ''b'']
        = Inr keyword_metrics \<and>
      dict_getitem keyword_metrics ''b'' = Inr m \<and>
      true_positives m = 0 \<and> false_positives m = 1 \<and> false_negatives m = 1"
    by (simp add: dict_get_def)
  with run mem dist show ?thesis by blast
qed

text \<open>
  C6. For every detected-keyword list and keyword list, compute_accuracy returns
  precision = TP/(TP+FP), recall = TP/(TP+FN) and F1 = 2PR/(P+R), each replaced by 0
  when its denominator is not positive, where TP is the number of distinct detected
  keywords that are input keywords, FP = |detected| - TP and FN = |keywords| - TP.
  Scenario 1: the transcript "the quick brown fox" with the keywords "quick" and "cat"
  gives detected = ["quick"], precision 1, recall 1/2 and F1 = 2/3.
\<close>

theorem compute_accuracy_formulas:
  "compute_accuracy detected keywords =
     (let TP = int (card (set detected \<inter> set keywords));
          FP = int (length detected) - TP;
          FN = int (length keywords) - TP;
          P = (if TP + FP > 0 then of_int TP / of_int (TP + FP) else 0);
          R = (if TP + FN > 0 then of_int TP / of_int (TP + FN) else 0);
          F = (if P + R > 0 then 2 * (P * R) / (P + R) else 0)
      in Inr (P, R, F)) \<and>
   detect_keywords str_lower (Some ''the quick brown fox'') [''quick'', ''cat''] =
     Inr ([(''quick'', 4, 9)], [''quick''], [(''quick'', [(4, 9)]), (''cat'', [])]) \<and>
   compute_accuracy [''quick''] [''quick'', ''cat''] = Inr (1, 1 / 2, 2 / 3)"
proof (intro conjI)
  show "compute_accuracy detected keywords =
     (let TP = int (card (set detected \<inter> set keywords));
          FP = int (length detected) - TP;
          FN = int (length keywords) - TP;
          P = (if TP + FP > 0 then of_int TP / of_int (TP + FP) else 0);
          R = (if TP + FN > 0 then of_int TP / of_int (TP + FN) else 0);
          F = (if P + R > 0 then 2 * (P * R) / (P + R) else 0)
      in Inr (P, R, F))"
    by (simp add: compute_accuracy_def Let_def bind_err_def py_truediv_def)
  show "detect_keywords str_lower (Some ''the quick brown fox'') [''quick'', ''cat''] =
     Inr ([(''quick'', 4, 9)], [''quick''], [(''quick'', [(4, 9)]), (''cat'', [])])"
    by code_simp
  show "compute_accuracy [''quick''] [''quick'', ''cat''] = Inr (1, 1 / 2, 2 / 3)"
    by code_simp
qed

text \<open>
  C7. For every detected-keyword list and keyword list, compute_accuracy returns three
  metrics and raises no ZeroDivisionError; each metric lies between 0 and 1; precision
  is 0 when nothing was detected (TP + FP = 0), recall is 0 when the keyword list is
  empty (TP + FN = 0), F1 is 0 when precision + recall = 0; and for the empty keyword
  list the three metrics are 0.
\<close>

theorem compute_accuracy_well_defined:
  "let TP = int (card (set detected \<inter> set keywords));
       FP = int (length detected) - TP;
       FN = int (length keywords) - TP
   in \<exists>p r f. compute_accuracy detected keywords = Inr (p, r, f) \<and>
        0 \<le> p \<and> p \<le> 1 \<and> 0 \<le> r \<and> r \<le> 1 \<and> 0 \<le> f \<and> f \<le> 1 \<and>
        (TP + FP = 0 \<longrightarrow> p = 0) \<and> (TP + FN = 0 \<longrightarrow> r = 0) \<and> (p + r = 0 \<longrightarrow> f = 0) \<and>
        compute_accuracy detected ([] :: 'k list) = Inr (0, 0, 0)"
proof -
  define TP where "TP = int (card (set detected \<inter> set keywords))"
  define P :: rat
    where "P = (if int (length detected) > 0 then of_int TP / of_int (int (length detected)) else 0)"
  define R :: rat
    where "R = (if int (length keywords) > 0 then of_int TP / of_int (int (length keywords)) else 0)"
  define F :: rat where "F = (if P + R > 0 then 2 * (P * R) / (P + R) else 0)"
  have tp: "0 \<le> TP" "TP \<le> int (length detected)" "TP \<le> int (length keywords)"
    using true_positives_le_detected[of detected "keywords"]
      true_positives_le_keywords[of detected "keywords"]
    by (simp_all add: TP_def)
  have eq: "compute_accuracy detected keywords = Inr (P, R, F)"
    by (simp add: compute_accuracy_eq Let_def TP_def P_def R_def F_def)
  have p: "0 \<le> P" "P \<le> 1" unfolding P_def using ratio_unit[OF tp(1,2)] by blast+
  have r: "0 \<le> R" "R \<le> 1" unfolding R_def using ratio_unit[OF tp(1,3)] by blast+
  have f: "0 \<le> F" "F \<le> 1" unfolding F_def using f1_unit[OF p r] by blast+
  have "TP + (int (length detected) - TP) = 0 \<longrightarrow> P = 0" by (simp add: P_def)
  moreover have "TP + (int (length keywords) - TP) = 0 \<longrightarrow> R = 0" by (simp add: R_def)
  moreover have "P + R = 0 \<longrightarrow> F = 0" by (simp add: F_def)
  moreover have "compute_accuracy detected ([] :: 'k list) = Inr (0, 0, 0)"
    by (simp add: compute_accuracy_eq Let_def)
  ultimately have "\<exists>p r f. compute_accuracy detected keywords = Inr (p, r, f) \<and>
        0 \<le> p \<and> p \<le> 1 \<and> 0 \<le> r \<and> r \<le> 1 \<and> 0 \<le> f \<and> f \<le> 1 \<and>
        (TP + (int (length detected) - TP) = 0 \<longrightarrow> p = 0) \<and>
        (TP + (int (length keywords) - TP) = 0 \<longrightarrow> r = 0) \<and> (p + r = 0 \<longrightarrow> f = 0) \<and>
        compute_accuracy detected ([] :: 'k list) = Inr (0, 0, 0)"
    using eq p r f by blast
  then show ?thesis unfolding Let_def TP_def .
qed

text \<open>
  With both lists empty the three denominators are 0 and the three metrics are 0; in
  scenario 1 the metrics lie between 0 and 1.
\<close>

theorem compute_accuracy_well_defined_witness:
  "compute_accuracy ([] :: string list) [] = Inr (0, 0, 0) \<and>
   (\<exists>p r f. compute_accuracy [''quick''] [''quick'', ''cat''] = Inr (p, r, f) \<and>
      0 \<le> p \<and> p \<le> 1 \<and> 0 \<le> r \<and> r \<le> 1 \<and> 0 \<le> f \<and> f \<le> 1)"
proof -
  from compute_accuracy_well_defined[of "[] :: string list" "[]"]
  obtain p r f where "compute_accuracy ([] :: string list) [] = Inr (p, r, f)"
    and "p = 0" and "r = 0" and "p + r = 0 \<longrightarrow> f = 0"
    by (auto simp: Let_def)
  then have "compute_accuracy ([] :: string list) [] = Inr (0, 0, 0)" by simp
  moreover from compute_accuracy_well_defined[of "[''quick'']" "[''quick'', ''cat'']"]
  have "\<exists>p r f. compute_accuracy [''quick''] [''quick'', ''cat''] = Inr (p, r, f) \<and>
      0 \<le> p \<and> p \<le> 1 \<and> 0 \<le> r \<and> r \<le> 1 \<and> 0 \<le> f \<and> f \<le> 1"
    unfolding Let_def by blast
  ultimately show ?thesis by blast
qed

text \<open>
  C9. For every keyword of the input list and every keyword-positions mapping, the
  per-keyword recall is exactly 1 when the keyword has a recorded occurrence and exactly
  0 when it has none, and false_negatives is 0 whenever true_positives is positive.
\<close>

theorem per_keyword_recall_binary:
  assumes "keyword \<in> set keywords"
  shows "\<exists>keyword_metrics m.
           compute_individual_keyword_metrics keyword_positions keywords = Inr keyword_metrics \<and>
           dict_getitem keyword_metrics keyword = Inr m \<and>
           recall m = (if dict_get keyword_positions keyword [] = [] then 0 else 1) \<and>
           (0 < true_positives m \<longrightarrow> false_negatives m = 0)"
proof -
  let ?m = "keyword_metric_of keyword_positions keyword"
  from metrics_lookup[OF assms(1)] obtain km
    where "compute_individual_keyword_metrics keyword_positions keywords = Inr km"
      and "dict_getitem km keyword = Inr ?m"
    by blast
  moreover have "recall ?m = (if dict_get keyword_positions keyword [] = [] then 0 else 1)"
    by (simp add: keyword_metric_of_def Let_def)
  moreover have "0 < true_positives ?m \<longrightarrow> false_negatives ?m = 0"
    by (simp add: keyword_metric_of_def Let_def)
  ultimately show ?thesis by blast
qed

text \<open>Scenario 5 again: the recall of "a", which has an occurrence, is 1.\<close>

theorem per_keyword_recall_binary_witness:
  "''a'' \<in> set [''a'', ''b''] \<and>
   (\<exists>keyword_metrics m.
      compute_individual_keyword_metrics [(''a'', [(0::int, 1::int)]), (''b'', [])] [''a'', ''b'']
        = Inr keyword_metrics \<and>
      dict_getitem keyword_metrics ''a'' = Inr m \<and>
      recall m = 1 \<and> 0 < true_positives m \<and> false_negatives m = 0)"
proof -
  have mem: "''a'' \<in> set [''a'', ''b'']" by simp
  from per_keyword_recall_binary[OF mem, of "[(''a'', [(0::int, 1::int)]), (''b'', [])]"]
  obtain km m
    where run: "compute_individual_keyword_metrics [(''a'', [(0::int, 1::int)]), (''b'', [])]
                  [''a'', ''b''] = Inr km"
      and get: "dict_getitem km ''a'' = Inr m"
      and rec: "recall m = 1"
      and fn: "0 < true_positives m \<longrightarrow> false_negatives m = 0"
    by (auto simp: dict_get_def)
  have "compute_individual_keyword_metrics [(''a'', [(0::int, 1::int)]), (''b'', [])]
          [''a'', ''b''] =
        Inr [(''a'', \<lparr>precision = 1, recall = 1, f1_score = 1, true_positives = 1,
                     false_positives = 0, false_negatives = 0\<rparr>),
             (''b'', \<lparr>precision = 0, recall = 0, f1_score = 0, true_positives = 0,
                     false_positives = 1, false_negatives = 1\<rparr>)]"
    by code_simp
  with run get have "0 < true_positives m" by (auto simp: dict_getitem_def)
  with run get rec fn mem show ?thesis by blast
qed

section \<open>Time mapping\<close>

text \<open>
  C8. For a transcript of non-zero length L, an audio duration D and every list of
  occurrences, the time mapping of \<^verbatim>\<open>main\<close> raises no error and turns each occurrence
  (keyword, start, end) into (keyword, start / L * D, end / L * D), in order.
\<close>

theorem time_mapping_linear:
  assumes "transcription \<noteq> []"
  shows "keyword_intervals_in_time transcription audio_duration keyword_intervals =
     Inr (map (\<lambda>(keyword, start, end').
                 (keyword,
                  of_int start / of_nat (length transcription) * audio_duration,
                  of_int end' / of_nat (length transcription) * audio_duration))
              keyword_intervals)"
  using assms
  by (induction keyword_intervals) (auto simp: bind_err_def py_truediv_def)

text \<open>
  Scenario 4: a transcript of 20 characters, 10 seconds of audio and the occurrence
  (4, 9) give the interval (2, 4.5).
\<close>

theorem time_mapping_linear_witness:
  "''the quick brown fox.'' \<noteq> [] \<and> length ''the quick brown fox.'' = 20 \<and>
   keyword_intervals_in_time ''the quick brown fox.'' 10 [(''quick'', 4, 9)] =
     Inr [(''quick'', 2, 9 / 2)]"
proof -
  have ne: "''the quick brown fox.'' \<noteq> []" by simp
  from time_mapping_linear[OF ne, of 10 "[(''quick'', 4, 9)]"]
  have "keyword_intervals_in_time ''the quick brown fox.'' 10 [(''quick'', 4, 9)] =
     Inr [(''quick'', 2, 9 / 2)]"
    by simp
  with ne show ?thesis by simp
qed

end
